theory Spec2Isabelle
  imports Complex_Main "HOL-Library.Sublist" "HOL-Library.Product_Lexorder"
begin

section \<open>Data model (types.ts)\<close>

text \<open>
  \<^verbatim>\<open>AutocompleteOption\<close>: the fields the search, ranking, fallback and selection code reads.
  Optional fields are \<open>option\<close> values (\<open>None\<close> is JavaScript's \<open>undefined\<close>).
  \<open>image\<close> and \<open>metadata\<close> are read by the renderers only and are left out.
  \<open>popularity\<close> is a JavaScript number; it is modelled as an exact rational (a finite
  number).
  The field \<open>id\<close> is named \<open>opt_id\<close> and \<open>value\<close> is named \<open>opt_value\<close>.
\<close>

record AutocompleteOption =
  opt_id :: string
  label :: string
  opt_value :: string
  category :: "string option"
  description :: "string option"
  popularity :: "rat option"
  recent :: "bool option"
  trending :: "bool option"

datatype algorithm = Fuzzy | Exact | Semantic | Hybrid

text \<open>
  \<^verbatim>\<open>SearchConfig\<close>. The numbers \<open>minQueryLength\<close>, \<open>maxResults\<close> and \<open>debounceMs\<close> are
  integers (possibly negative, the type is \<open>number\<close>); \<open>fuzzyThreshold\<close> is an exact rational.
\<close>

record SearchConfig =
  algorithm :: algorithm
  fuzzyThreshold :: rat
  minQueryLength :: int
  maxResults :: int
  debounceMs :: int
  caseSensitive :: bool
  accentSensitive :: bool

definition DEFAULT_SEARCH_CONFIG :: SearchConfig where
  "DEFAULT_SEARCH_CONFIG =
     \<lparr> algorithm = Hybrid, fuzzyThreshold = 1 / 2, minQueryLength = 1, maxResults = 10,
       debounceMs = 300, caseSensitive = False, accentSensitive = False \<rparr>"

text \<open>
  The names a \<open>filterBy\<close> entry can take: the text fields and the two flags of an option, and
  \<open>FOther\<close> for a name that is no field of the option (the lookup is \<open>undefined\<close>). The
  default is \<open>label\<close>, \<open>value\<close>, \<open>description\<close>; the names \<open>popularity\<close>, \<open>image\<close> and
  \<open>metadata\<close> are not covered.
\<close>

datatype field = FId | FLabel | FValue | FCategory | FDescription | FRecent | FTrending | FOther

text \<open>
  The props of the component that the handlers close over. \<open>has_onChange\<close> and
  \<open>has_onSearch\<close> say whether the optional callbacks were supplied.
\<close>

record Props =
  multiple :: bool
  filterBy :: "field list"
  showRecent :: bool
  showTrending :: bool
  has_onChange :: bool
  has_onSearch :: bool

definition default_props :: Props where
  "default_props =
     \<lparr> multiple = False, filterBy = [FLabel, FValue, FDescription], showRecent = True,
       showTrending = True, has_onChange = False, has_onSearch = False \<rparr>"

section \<open>JavaScript built-ins used by the code\<close>

text \<open>
  Strings are lists of characters; case folding and white space are those of ASCII.
\<close>

definition toLowerCase_char :: "char \<Rightarrow> char" where
  "toLowerCase_char c =
     (let n = (of_char c :: nat) in if 65 \<le> n \<and> n \<le> 90 then char_of (n + 32) else c)"

definition toLowerCase :: "string \<Rightarrow> string" where
  "toLowerCase s = map toLowerCase_char s"

text \<open>\<^verbatim>\<open>text.includes(q)\<close>: \<open>q\<close> occurs in \<open>text\<close> as a contiguous block.\<close>

fun js_includes :: "string \<Rightarrow> string \<Rightarrow> bool" where
  "js_includes [] q = (q = [])"
| "js_includes (c # cs) q = (prefix q (c # cs) \<or> js_includes cs q)"

text \<open>\<^verbatim>\<open>text.startsWith(q)\<close>.\<close>

definition startsWith :: "string \<Rightarrow> string \<Rightarrow> bool" where
  "startsWith text q = prefix q text"

text \<open>The characters matched by \<^verbatim>\<open>\s\<close>: tab, line feed, vertical tab, form feed, carriage
  return and space.\<close>

definition is_space :: "char \<Rightarrow> bool" where
  "is_space c = (let n = (of_char c :: nat) in (9 \<le> n \<and> n \<le> 13) \<or> n = 32)"

text \<open>\<^verbatim>\<open>text.split(/\s+/)\<close>: cut at every maximal run of white space. A run at the start or
  at the end leaves an empty first or last piece, and the empty string gives one empty piece.\<close>

function split_ws :: "string \<Rightarrow> string list" where
  "split_ws [] = [[]]"
| "split_ws (c # cs) =
     (if is_space c then [] # split_ws (dropWhile is_space cs)
      else (case split_ws cs of [] \<Rightarrow> [[c]] | w # ws \<Rightarrow> (c # w) # ws))"
  by pat_completeness auto
termination
  by (relation "measure length") (auto simp: less_Suc_eq_le length_dropWhile_le)

text \<open>\<^verbatim>\<open>text.split(' ')\<close>: cut at every single separator character.\<close>

fun split_on :: "char \<Rightarrow> string \<Rightarrow> string list" where
  "split_on s [] = [[]]"
| "split_on s (c # cs) =
     (if c = s then [] # split_on s cs
      else (case split_on s cs of [] \<Rightarrow> [[c]] | w # ws \<Rightarrow> (c # w) # ws))"

text \<open>\<^verbatim>\<open>parts.join(' ')\<close>.\<close>

fun join :: "string \<Rightarrow> string list \<Rightarrow> string" where
  "join sep [] = []"
| "join sep [x] = x"
| "join sep (x # y # ys) = x @ sep @ join sep (y # ys)"

text \<open>
  \<^verbatim>\<open>xs.slice(start, end)\<close> on integer arguments: a negative index counts from the end of the
  array, and both indices are clamped to the array.
\<close>

definition slice :: "int \<Rightarrow> int \<Rightarrow> 'a list \<Rightarrow> 'a list" where
  "slice start stop xs =
     (let n = int (length xs);
          k = (if start < 0 then max (n + start) 0 else min start n);
          e = (if stop < 0 then max (n + stop) 0 else min stop n)
      in take (nat (e - k)) (drop (nat k) xs))"

text \<open>
  \<^verbatim>\<open>xs.sort(cmp)\<close>. The language requires the sort to be stable, and the comparators of this
  program are consistent, which fixes the result; it is computed here by stable insertion:
  an element goes in front of the first later element that it does not compare greater than.
\<close>

fun insert_cmp :: "('a \<Rightarrow> 'a \<Rightarrow> rat) \<Rightarrow> 'a \<Rightarrow> 'a list \<Rightarrow> 'a list" where
  "insert_cmp cmp x [] = [x]"
| "insert_cmp cmp x (y # ys) = (if cmp x y \<le> 0 then x # y # ys else y # insert_cmp cmp x ys)"

definition js_sort :: "('a \<Rightarrow> 'a \<Rightarrow> rat) \<Rightarrow> 'a list \<Rightarrow> 'a list" where
  "js_sort cmp xs = foldr (insert_cmp cmp) xs []"

text \<open>\<^verbatim>\<open>arr.findIndex(p)\<close>, with \<open>-1\<close> when no element satisfies \<open>p\<close>.\<close>

fun findIndex :: "('a \<Rightarrow> bool) \<Rightarrow> 'a list \<Rightarrow> int" where
  "findIndex p [] = -1"
| "findIndex p (x # xs) =
     (if p x then 0 else (let r = findIndex p xs in if r < 0 then -1 else r + 1))"

section \<open>Edit distance and fuzzy matching\<close>

text \<open>
  \<^verbatim>\<open>levenshteinDistance(a, b)\<close> fills a matrix of \<open>b.length + 1\<close> rows and \<open>a.length + 1\<close>
  columns row by row. Row \<open>0\<close> is \<open>0, 1, .., a.length\<close>; row \<open>j\<close> starts with \<open>j\<close> and each
  further cell is the minimum of the cell to its left plus one, the cell above plus one,
  and the cell diagonally above plus the substitution cost. \<open>lev_row\<close> computes the cells
  \<open>1 ..\<close> of row \<open>j\<close> from row \<open>j - 1\<close>: its third argument is the rest of the previous row
  from the diagonal cell on, its last argument the cell to the left.
\<close>

fun lev_row :: "char \<Rightarrow> string \<Rightarrow> nat list \<Rightarrow> nat \<Rightarrow> nat list" where
  "lev_row bj (ai # as) (diag # up # prev) left =
     (let cost = (if ai = bj then 0 else 1);
          v = min (min (left + 1) (up + 1)) (diag + cost)
      in v # lev_row bj as (up # prev) v)"
| "lev_row bj _ _ left = []"

fun lev_rows :: "string \<Rightarrow> nat \<Rightarrow> string \<Rightarrow> nat list \<Rightarrow> nat list" where
  "lev_rows a j [] row = row"
| "lev_rows a j (bj # bs) row = lev_rows a (Suc j) bs (Suc j # lev_row bj a row (Suc j))"

definition levenshteinDistance :: "string \<Rightarrow> string \<Rightarrow> nat" where
  "levenshteinDistance a b = last (lev_rows a 0 b [0 ..< Suc (length a)])"

text \<open>
  The test \<^verbatim>\<open>1 - distance / maxLength >= threshold\<close>, computed exactly. With
  \<open>maxLength = 0\<close> the quotient is \<open>NaN\<close> or infinite and the comparison is false.
\<close>

definition similarity_ge :: "nat \<Rightarrow> nat \<Rightarrow> rat \<Rightarrow> bool" where
  "similarity_ge distance maxLength threshold =
     (maxLength \<noteq> 0 \<and> threshold \<le> 1 - of_nat distance / of_nat maxLength)"

text \<open>The body of the loop over the words of the text.\<close>

definition word_matches :: "string \<Rightarrow> rat \<Rightarrow> string \<Rightarrow> bool" where
  "word_matches queryLower threshold word =
     (similarity_ge (levenshteinDistance queryLower word)
        (max (length queryLower) (length word)) threshold
      \<or> (length word \<ge> length queryLower
         \<and> list_ex (\<lambda>i. similarity_ge
              (levenshteinDistance queryLower (take (length queryLower) (drop i word)))
              (length queryLower) threshold)
            [0 ..< Suc (length word - length queryLower)]))"

definition fuzzyMatch :: "string \<Rightarrow> string \<Rightarrow> rat \<Rightarrow> bool" where
  "fuzzyMatch query text threshold =
     (let queryLower = toLowerCase query; textLower = toLowerCase text
      in if js_includes textLower queryLower then True
         else list_ex (word_matches queryLower threshold) (split_ws textLower))"

section \<open>filterOptions\<close>

text \<open>\<^verbatim>\<open>option[field] || ''\<close>, as the text that \<open>join\<close> makes of it.\<close>

fun field_text :: "AutocompleteOption \<Rightarrow> field \<Rightarrow> string" where
  "field_text opt FId = opt_id opt"
| "field_text opt FLabel = label opt"
| "field_text opt FValue = opt_value opt"
| "field_text opt FCategory = (case category opt of None \<Rightarrow> [] | Some s \<Rightarrow> s)"
| "field_text opt FDescription = (case description opt of None \<Rightarrow> [] | Some s \<Rightarrow> s)"
| "field_text opt FRecent = (if recent opt = Some True then ''true'' else [])"
| "field_text opt FTrending = (if trending opt = Some True then ''true'' else [])"
| "field_text opt FOther = []"

definition searchText :: "Props \<Rightarrow> AutocompleteOption \<Rightarrow> string" where
  "searchText p opt = join '' '' (map (field_text opt) (filterBy p))"

text \<open>The predicate of \<^verbatim>\<open>availableOptions.filter(option => ...)\<close>.\<close>

definition matches :: "Props \<Rightarrow> SearchConfig \<Rightarrow> string \<Rightarrow> AutocompleteOption \<Rightarrow> bool" where
  "matches p config searchQuery opt =
     (let st = searchText p opt in
      case algorithm config of
        Exact \<Rightarrow>
          (if caseSensitive config then js_includes st searchQuery
           else js_includes (toLowerCase st) (toLowerCase searchQuery))
      | Fuzzy \<Rightarrow> fuzzyMatch searchQuery st (fuzzyThreshold config)
      | Semantic \<Rightarrow>
          (js_includes (toLowerCase st) (toLowerCase searchQuery)
           \<or> list_ex (\<lambda>word. js_includes (toLowerCase st) word)
                (split_on (CHR '' '') (toLowerCase searchQuery)))
      | Hybrid \<Rightarrow>
          (js_includes (toLowerCase st) (toLowerCase searchQuery)
           \<or> fuzzyMatch searchQuery st (fuzzyThreshold config)))"

text \<open>\<^verbatim>\<open>opt.popularity || 0\<close>.\<close>

definition popularity_or_0 :: "AutocompleteOption \<Rightarrow> rat" where
  "popularity_or_0 opt = (case popularity opt of None \<Rightarrow> 0 | Some n \<Rightarrow> n)"

text \<open>The comparator of the fallback path: descending popularity.\<close>

definition popular_cmp :: "AutocompleteOption \<Rightarrow> AutocompleteOption \<Rightarrow> rat" where
  "popular_cmp a b = popularity_or_0 b - popularity_or_0 a"

text \<open>The comparator of the search path: labels that start with the query first, then
  descending popularity.\<close>

definition rank_cmp :: "string \<Rightarrow> AutocompleteOption \<Rightarrow> AutocompleteOption \<Rightarrow> rat" where
  "rank_cmp searchQuery a b =
     (let aExact = startsWith (toLowerCase (label a)) (toLowerCase searchQuery);
          bExact = startsWith (toLowerCase (label b)) (toLowerCase searchQuery)
      in if aExact \<and> \<not> bExact then - 1
         else if \<not> aExact \<and> bExact then 1
         else popularity_or_0 b - popularity_or_0 a)"

definition rank :: "string \<Rightarrow> AutocompleteOption list \<Rightarrow> AutocompleteOption list" where
  "rank searchQuery xs = js_sort (rank_cmp searchQuery) xs"

text \<open>\<^verbatim>\<open>arr.filter((opt, index, arr) => arr.findIndex(o => o.id === opt.id) === index)\<close>.\<close>

definition dedup :: "AutocompleteOption list \<Rightarrow> AutocompleteOption list" where
  "dedup arr =
     map snd (filter (\<lambda>(index, opt). findIndex (\<lambda>other. opt_id other = opt_id opt) arr = int index)
                (zip [0 ..< length arr] arr))"

text \<open>
  The fallback branch up to its final \<open>slice\<close>. \<open>sort\<close> works in place, so after the
  branch the array passed in holds its elements in sorted order: the second component of
  the result is that array. \<open>recent\<close> and \<open>trending\<close> are taken from it before the sort.
\<close>

definition fallback_merged ::
  "Props \<Rightarrow> AutocompleteOption list \<Rightarrow> AutocompleteOption list \<times> AutocompleteOption list" where
  "fallback_merged p availableOptions =
     (let recents = (if showRecent p
                     then slice 0 3 (filter (\<lambda>opt. recent opt = Some True) availableOptions)
                     else []);
          trendings = (if showTrending p
                       then slice 0 3 (filter (\<lambda>opt. trending opt = Some True) availableOptions)
                       else []);
          sorted_options = js_sort popular_cmp availableOptions;
          popular = slice 0 4 sorted_options
      in (dedup (recents @ trendings @ popular), sorted_options))"

text \<open>The search branch up to its final \<open>slice\<close>: \<open>filter\<close> makes a fresh array, which is
  then sorted.\<close>

definition ranked_matches ::
  "Props \<Rightarrow> SearchConfig \<Rightarrow> string \<Rightarrow> AutocompleteOption list \<Rightarrow> AutocompleteOption list" where
  "ranked_matches p config searchQuery availableOptions =
     rank searchQuery (filter (matches p config searchQuery) availableOptions)"

text \<open>
  \<^verbatim>\<open>filterOptions(searchQuery, availableOptions)\<close>: the list returned, and the array
  \<open>availableOptions\<close> as the call leaves it. The search branch sorts the fresh array made by
  \<open>filter\<close> and leaves \<open>availableOptions\<close> alone.
\<close>

definition filterOptions ::
  "Props \<Rightarrow> SearchConfig \<Rightarrow> string \<Rightarrow> AutocompleteOption list
     \<Rightarrow> AutocompleteOption list \<times> AutocompleteOption list" where
  "filterOptions p config searchQuery availableOptions =
     (if searchQuery = [] \<or> int (length searchQuery) < minQueryLength config
      then (let (merged, sorted_options) = fallback_merged p availableOptions
            in (slice 0 (maxResults config) merged, sorted_options))
      else (slice 0 (maxResults config) (ranked_matches p config searchQuery availableOptions),
            availableOptions))"

section \<open>The component: search, selection, debouncing\<close>





text \<open>
  The state that \<open>performSearch\<close> reads and writes: the \<open>options\<close> array of the props (the
  fallback sorts it in place), the displayed list, the loading flag, the arguments of the
  calls of \<open>onSearch\<close> made so far, the calls that have not settled yet (the number of the
  call and the query its continuation holds), and the number of errors logged.
\<close>

record State =
  options :: "AutocompleteOption list"
  filteredOptions :: "AutocompleteOption list"
  isLoading :: bool
  calls :: "string list"
  inflight :: "(nat \<times> string) list"
  errors :: nat

definition init_state :: "AutocompleteOption list \<Rightarrow> State" where
  "init_state opts =
     \<lparr> options = opts, filteredOptions = [], isLoading = False, calls = [], inflight = [],
       errors = 0 \<rparr>"

datatype outcome = Resolved "AutocompleteOption list" | Rejected

text \<open>
  \<open>PerformSearch q\<close> is a call of \<open>performSearch(q)\<close> up to its \<open>await\<close>; \<open>Settle k r\<close> is the
  promise of call number \<open>k\<close> of \<open>onSearch\<close> settling with \<open>r\<close>, which runs the rest of that
  \<open>performSearch\<close>.
\<close>

datatype event = PerformSearch string | Settle nat outcome

fun step :: "Props \<Rightarrow> SearchConfig \<Rightarrow> State \<Rightarrow> event \<Rightarrow> State" where
  "step p config st (PerformSearch searchQuery) =
     (if has_onSearch p \<and> int (length searchQuery) \<ge> minQueryLength config
      then st\<lparr> isLoading := True, calls := calls st @ [searchQuery],
               inflight := inflight st @ [(length (calls st), searchQuery)] \<rparr>
      else (let (shown, opts) = filterOptions p config searchQuery (options st)
            in st\<lparr> filteredOptions := shown, options := opts \<rparr>))"
| "step p config st (Settle k r) =
     (case map_of (inflight st) k of
        None \<Rightarrow> st
      | Some searchQuery \<Rightarrow>
          (let st' = st\<lparr> inflight := filter (\<lambda>(k', _). k' \<noteq> k) (inflight st) \<rparr>
           in case r of
                Resolved results \<Rightarrow>
                  st'\<lparr> filteredOptions := fst (filterOptions p config searchQuery results),
                       isLoading := False \<rparr>
              | Rejected \<Rightarrow>
                  st'\<lparr> filteredOptions := [], isLoading := False, errors := Suc (errors st) \<rparr>))"

definition run :: "Props \<Rightarrow> SearchConfig \<Rightarrow> State \<Rightarrow> event list \<Rightarrow> State" where
  "run p config st evs = foldl (step p config) st evs"

text \<open>
  The debouncer. Time is in milliseconds. \<open>timers\<close> is the host's table of armed timers:
  identifier, due time and the query that the callback passes to \<open>performSearch\<close>.
  Identifiers are positive, so a stored identifier is truthy. \<open>searches\<close> lists the calls of
  \<open>performSearch\<close> made by timer callbacks, in order.
\<close>

record Debounce =
  timers :: "(nat \<times> nat \<times> string) list"
  next_timer :: nat
  debounceRef :: "nat option"
  query :: string
  highlightedIndex :: int
  searches :: "string list"










section \<open>The specification's wording, for comparison\<close>

text \<open>Keep the first occurrence of every id; \<open>seen\<close> holds the ids already kept.\<close>

fun dedup_seen :: "string list \<Rightarrow> AutocompleteOption list \<Rightarrow> AutocompleteOption list" where
  "dedup_seen seen [] = []"
| "dedup_seen seen (x # xs) =
     (if opt_id x \<in> set seen then dedup_seen seen xs
      else x # dedup_seen (opt_id x # seen) xs)"

text \<open>
  The fallback selector as the specification words it: the first 3 recent candidates (if
  enabled), the first 3 trending ones (if enabled), the first 4 in descending order of
  popularity (stable), deduplicated by id keeping the first occurrence, cut to
  \<open>maxResults\<close>.
\<close>

definition fallback_spec ::
  "Props \<Rightarrow> SearchConfig \<Rightarrow> AutocompleteOption list \<Rightarrow> AutocompleteOption list" where
  "fallback_spec p config candidates =
     (let recentSlice = (if showRecent p
                         then take 3 (filter (\<lambda>c. recent c = Some True) candidates) else []);
          trendingSlice = (if showTrending p
                           then take 3 (filter (\<lambda>c. trending c = Some True) candidates) else []);
          popularSlice = take 4 (sort_key (\<lambda>c. - popularity_or_0 c) candidates)
      in take (nat (maxResults config))
           (dedup_seen [] (recentSlice @ trendingSlice @ popularSlice)))"

text \<open>Clamping a threshold to \<open>[0, 1]\<close> and a result cap to the least valid value.\<close>

definition clamp_threshold :: "rat \<Rightarrow> rat" where
  "clamp_threshold t = max 0 (min 1 t)"

definition clamp_maxResults :: "int \<Rightarrow> int" where
  "clamp_maxResults m = max 1 m"

section \<open>Example data\<close>

definition mk_option :: "string \<Rightarrow> string \<Rightarrow> rat \<Rightarrow> AutocompleteOption" where
  "mk_option i l n =
     \<lparr> opt_id = i, label = l, opt_value = [], category = None, description = None,
       popularity = Some n, recent = None, trending = None \<rparr>"

definition macbook_pro :: AutocompleteOption where
  "macbook_pro = mk_option ''1'' ''MacBook Pro'' 90"

definition macbook_air :: AutocompleteOption where
  "macbook_air = mk_option ''2'' ''MacBook Air'' 70"

definition macbook_mini :: AutocompleteOption where
  "macbook_mini = mk_option ''3'' ''MacBook Mini'' 50"

definition ipad :: AutocompleteOption where
  "ipad = mk_option ''4'' ''iPad'' 80"

definition iphone :: AutocompleteOption where
  "iphone = mk_option ''5'' ''iPhone 15'' 95"

definition hybrid_config :: SearchConfig where
  "hybrid_config = DEFAULT_SEARCH_CONFIG\<lparr> algorithm := Hybrid, fuzzyThreshold := 1 / 2 \<rparr>"

definition recent_item :: AutocompleteOption where
  "recent_item =
     \<lparr> opt_id = ''r'', label = ''Recent'', opt_value = [], category = None, description = None,
       popularity = None, recent = Some True, trending = None \<rparr>"

definition pop10 :: AutocompleteOption where
  "pop10 = mk_option ''a'' ''Ten'' 10"

definition pop20 :: AutocompleteOption where
  "pop20 = mk_option ''b'' ''Twenty'' 20"

definition pop30 :: AutocompleteOption where
  "pop30 = mk_option ''c'' ''Thirty'' 30"

section \<open>Auxiliary notions for the proofs\<close>

text \<open>The list that \<open>filterOptions\<close> passes to its final \<open>slice\<close>.\<close>

definition unsliced ::
  "Props \<Rightarrow> SearchConfig \<Rightarrow> string \<Rightarrow> AutocompleteOption list \<Rightarrow> AutocompleteOption list" where
  "unsliced p config searchQuery availableOptions =
     (if searchQuery = [] \<or> int (length searchQuery) < minQueryLength config
      then fst (fallback_merged p availableOptions)
      else ranked_matches p config searchQuery availableOptions)"

text \<open>
  What is known of a cell of the edit-distance matrix: the cell in column \<open>i\<close> of the row
  reached after the characters \<open>bs\<close> is at most \<open>max i (length bs)\<close>, and it is 0 only if the
  first \<open>i\<close> characters of \<open>a\<close> are \<open>bs\<close>.
\<close>

definition cell_ok :: "string \<Rightarrow> string \<Rightarrow> nat \<Rightarrow> nat \<Rightarrow> bool" where
  "cell_ok a bs i v = (v \<le> max i (length bs) \<and> (v = 0 \<longrightarrow> take i a = bs))"

definition row_ok :: "string \<Rightarrow> string \<Rightarrow> nat list \<Rightarrow> bool" where
  "row_ok a bs row = (length row = Suc (length a) \<and> (\<forall>i \<le> length a. cell_ok a bs i (row ! i)))"

text \<open>The key that \<open>rank_cmp\<close> compares: labels starting with the query first (\<open>False\<close> is
  below \<open>True\<close>), then the negated popularity, in lexicographic order.\<close>

definition rank_key :: "string \<Rightarrow> AutocompleteOption \<Rightarrow> bool \<times> rat" where
  "rank_key q x = (\<not> startsWith (toLowerCase (label x)) (toLowerCase q), - popularity_or_0 x)"

section \<open>Sorting: the comparators as keys\<close>

lemma insert_cmp_insort_key:
  assumes "\<And>x y. (cmp x y \<le> 0) = (f x \<le> f y)"
  shows "insert_cmp cmp x ys = insort_key f x ys"
  by (induction ys) (simp_all add: assms)

lemma js_sort_sort_key:
  assumes "\<And>x y. (cmp x y \<le> 0) = (f x \<le> f y)"
  shows "js_sort cmp xs = sort_key f xs"
proof -
  have "insert_cmp cmp = insort_key f"
    by (intro ext) (rule insert_cmp_insort_key [OF assms])
  then show ?thesis by (simp add: js_sort_def sort_key_def)
qed

lemma rank_cmp_key: "(rank_cmp q a b \<le> 0) = (rank_key q a \<le> rank_key q b)"
  by (auto simp: rank_cmp_def rank_key_def Let_def less_eq_prod_def)

lemma rank_sort_key: "rank q xs = sort_key (rank_key q) xs"
  unfolding rank_def by (rule js_sort_sort_key) (rule rank_cmp_key)

lemma popular_sort_key: "js_sort popular_cmp xs = sort_key (\<lambda>c. - popularity_or_0 c) xs"
  by (rule js_sort_sort_key) (simp add: popular_cmp_def)

section \<open>Slicing and deduplication\<close>

lemma slice_take: "0 \<le> m \<Longrightarrow> slice 0 m xs = take (nat m) xs"
  by (auto simp: slice_def Let_def min_def)

lemma findIndex_nonneg_iff: "0 \<le> findIndex p xs \<longleftrightarrow> (\<exists>x \<in> set xs. p x)"
  by (induction xs) (auto simp: Let_def)

lemma findIndex_append:
  "findIndex p (pre @ x # xs) = int (length pre) \<longleftrightarrow> p x \<and> (\<forall>y \<in> set pre. \<not> p y)"
proof (induction pre)
  case Nil
  show ?case using findIndex_nonneg_iff [of p xs] by (auto simp: Let_def)
next
  case (Cons a pre)
  then show ?case by (auto simp: Let_def)
qed

lemma upt_shift: "[n ..< n + Suc m] = n # [Suc n ..< Suc n + m]"
  by (simp add: upt_conv_Cons del: upt_Suc)

lemma dedup_seen_cong: "set seen = set seen' \<Longrightarrow> dedup_seen seen xs = dedup_seen seen' xs"
proof (induction xs arbitrary: seen seen')
  case Nil
  show ?case by simp
next
  case (Cons x xs)
  have mem: "(opt_id x \<in> set seen) = (opt_id x \<in> set seen')"
    using Cons.prems by simp
  have "set (opt_id x # seen) = set (opt_id x # seen')"
    using Cons.prems by simp
  then have "dedup_seen (opt_id x # seen) xs = dedup_seen (opt_id x # seen') xs"
    by (rule Cons.IH)
  moreover have "dedup_seen seen xs = dedup_seen seen' xs"
    using Cons.prems by (rule Cons.IH)
  ultimately show ?case using mem by simp
qed

text \<open>An element at index \<open>n\<close> survives the \<open>findIndex\<close> filter exactly when no earlier
  element has its id.\<close>

lemma dedup_gen:
  "n = length pre \<Longrightarrow>
   map snd (filter (\<lambda>(index, opt). findIndex (\<lambda>other. opt_id other = opt_id opt) (pre @ xs) = int index)
       (zip [n ..< n + length xs] xs))
   = dedup_seen (map opt_id pre) xs"
proof (induction xs arbitrary: pre n)
  case Nil
  show ?case by simp
next
  case (Cons x xs)
  have keep: "findIndex (\<lambda>other. opt_id other = opt_id x) (pre @ x # xs) = int n
      \<longleftrightarrow> opt_id x \<notin> set (map opt_id pre)"
  proof -
    have "(\<forall>y \<in> set pre. opt_id y \<noteq> opt_id x) \<longleftrightarrow> opt_id x \<notin> opt_id ` set pre"
      by (metis image_iff)
    then show ?thesis unfolding Cons.prems by (subst findIndex_append) simp
  qed
  have "map snd (filter (\<lambda>(index, opt).
            findIndex (\<lambda>other. opt_id other = opt_id opt) ((pre @ [x]) @ xs) = int index)
          (zip [Suc n ..< Suc n + length xs] xs))
        = dedup_seen (map opt_id (pre @ [x])) xs"
    by (rule Cons.IH) (simp add: Cons.prems)
  moreover have "dedup_seen (map opt_id (pre @ [x])) xs = dedup_seen (opt_id x # map opt_id pre) xs"
    by (rule dedup_seen_cong) simp
  ultimately have ih: "map snd (filter (\<lambda>(index, opt).
            findIndex (\<lambda>other. opt_id other = opt_id opt) (pre @ x # xs) = int index)
          (zip [Suc n ..< Suc n + length xs] xs))
        = dedup_seen (opt_id x # map opt_id pre) xs"
    by simp
  have "[n ..< n + length (x # xs)] = n # [Suc n ..< Suc n + length xs]"
    using upt_shift [of n "length xs"] by simp
  moreover have "opt_id x \<in> opt_id ` set pre \<Longrightarrow>
      dedup_seen (opt_id x # map opt_id pre) xs = dedup_seen (map opt_id pre) xs"
    by (rule dedup_seen_cong) auto
  ultimately show ?case
    using keep ih by (simp del: upt_Suc)
qed

lemma dedup_dedup_seen: "dedup arr = dedup_seen [] arr"
  using dedup_gen [of 0 "[]" arr] by (simp add: dedup_def)

section \<open>The edit-distance matrix\<close>

lemma cell_ok_step:
  assumes diag: "cell_ok a bs i d" and i: "i < length a"
  shows "cell_ok a (bs @ [bj]) (Suc i)
           (min (min (left + 1) (up + 1)) (d + (if a ! i = bj then 0 else 1)))"
proof -
  let ?v = "min (min (left + 1) (up + 1)) (d + (if a ! i = bj then 0 else 1))"
  have "?v \<le> d + 1" by (simp add: min_le_iff_disj)
  moreover have "d \<le> max i (length bs)" using diag by (simp add: cell_ok_def)
  ultimately have bound: "?v \<le> max (Suc i) (length (bs @ [bj]))" by simp
  have zero: "take (Suc i) a = bs @ [bj]" if "?v = 0"
  proof -
    from that have "d = 0" and "a ! i = bj"
      by (auto simp: min_def split: if_splits)
    with diag have "take i a = bs" by (simp add: cell_ok_def)
    with i \<open>a ! i = bj\<close> show ?thesis by (simp add: take_Suc_conv_app_nth)
  qed
  show ?thesis unfolding cell_ok_def using bound zero by blast
qed

lemma lev_row_ok:
  assumes "row_ok a bs row"
  shows "as = drop i a \<Longrightarrow> prev = drop i row \<Longrightarrow> i \<le> length a \<Longrightarrow>
         length (lev_row bj as prev left) = length as
         \<and> (\<forall>k < length as. cell_ok a (bs @ [bj]) (Suc i + k) (lev_row bj as prev left ! k))"
proof (induction as arbitrary: i prev left)
  case Nil
  show ?case by simp
next
  case (Cons ai as)
  from Cons.prems have i: "i < length a"
    by (metis drop_eq_Nil list.distinct(1) not_le_imp_less)
  have len: "length row = Suc (length a)" using assms by (simp add: row_ok_def)
  have ai: "ai = a ! i" and as: "as = drop (Suc i) a"
    using Cons.prems(1) i by (simp_all add: Cons_nth_drop_Suc [symmetric])
  have d1: "drop (Suc i) row = row ! Suc i # drop (Suc (Suc i)) row"
    using i len by (simp add: Cons_nth_drop_Suc)
  have d0: "prev = row ! i # drop (Suc i) row"
    using Cons.prems(2) i len by (simp add: Cons_nth_drop_Suc)
  let ?v = "min (min (left + 1) (row ! Suc i + 1)) (row ! i + (if a ! i = bj then 0 else 1))"
  have "lev_row bj (ai # as) (row ! i # row ! Suc i # drop (Suc (Suc i)) row) left
      = ?v # lev_row bj as (row ! Suc i # drop (Suc (Suc i)) row) ?v"
    by (simp add: Let_def ai)
  then have unfold: "lev_row bj (ai # as) prev left = ?v # lev_row bj as (drop (Suc i) row) ?v"
    by (simp only: d0 d1)
  have "cell_ok a bs i (row ! i)" using assms i by (simp add: row_ok_def)
  then have v: "cell_ok a (bs @ [bj]) (Suc i) ?v" using i by (rule cell_ok_step)
  have ih: "length (lev_row bj as (drop (Suc i) row) ?v) = length as
      \<and> (\<forall>k < length as. cell_ok a (bs @ [bj]) (Suc (Suc i) + k)
            (lev_row bj as (drop (Suc i) row) ?v ! k))"
    using as i by (intro Cons.IH) simp_all
  show ?case
    unfolding unfold using v ih by (auto simp: nth_Cons split: nat.splits)
qed

lemma lev_row_row_ok:
  assumes "row_ok a bs row"
  shows "row_ok a (bs @ [bj]) (Suc (length bs) # lev_row bj a row (Suc (length bs)))"
proof -
  have r: "length (lev_row bj a row (Suc (length bs))) = length a
      \<and> (\<forall>k < length a. cell_ok a (bs @ [bj]) (Suc 0 + k) (lev_row bj a row (Suc (length bs)) ! k))"
    using lev_row_ok [OF assms, of a 0 row bj "Suc (length bs)"] by simp
  have "cell_ok a (bs @ [bj]) 0 (Suc (length bs))" by (simp add: cell_ok_def)
  with r show ?thesis
    by (auto simp: row_ok_def nth_Cons split: nat.splits)
qed

lemma lev_rows_ok:
  "row_ok a bs row \<Longrightarrow> j = length bs \<Longrightarrow> row_ok a (bs @ b) (lev_rows a j b row)"
proof (induction b arbitrary: bs row j)
  case Nil
  then show ?case by simp
next
  case (Cons bj b)
  have "row_ok a (bs @ [bj]) (Suc j # lev_row bj a row (Suc j))"
    using lev_row_row_ok [OF Cons.prems(1)] Cons.prems(2) by simp
  then have "row_ok a ((bs @ [bj]) @ b) (lev_rows a (Suc j) b (Suc j # lev_row bj a row (Suc j)))"
    by (rule Cons.IH) (simp add: Cons.prems)
  then show ?case by simp
qed

lemma row0_ok: "row_ok a [] [0 ..< Suc (length a)]"
  by (auto simp: row_ok_def cell_ok_def nth_upt simp del: upt_Suc)

lemma levenshteinDistance_ok: "cell_ok a b (length a) (levenshteinDistance a b)"
proof -
  have ok: "row_ok a b (lev_rows a 0 b [0 ..< Suc (length a)])"
    using lev_rows_ok [OF row0_ok, of 0 a b] by simp
  then have "lev_rows a 0 b [0 ..< Suc (length a)] \<noteq> []"
    by (auto simp: row_ok_def)
  then have "levenshteinDistance a b = lev_rows a 0 b [0 ..< Suc (length a)] ! length a"
    using ok by (simp add: levenshteinDistance_def last_conv_nth row_ok_def)
  with ok show ?thesis by (simp add: row_ok_def)
qed

lemma levenshteinDistance_le: "levenshteinDistance a b \<le> max (length a) (length b)"
  using levenshteinDistance_ok [of a b] by (simp add: cell_ok_def)

lemma levenshteinDistance_0: "levenshteinDistance a b = 0 \<Longrightarrow> a = b"
  using levenshteinDistance_ok [of a b] by (simp add: cell_ok_def)

section \<open>Fuzzy matching and the threshold\<close>

lemma js_includes_sublist: "js_includes str q \<longleftrightarrow> sublist q str"
  by (induction str) (simp_all add: sublist_Cons_right)

lemma split_ws_nonempty: "split_ws str \<noteq> []"
  by (induction str rule: split_ws.induct) (auto split: list.splits)

lemma split_ws_hd_prefix: "prefix (hd (split_ws str)) str"
proof (induction str rule: split_ws.induct)
  case 1
  show ?case by simp
next
  case (2 c cs)
  then show ?case using split_ws_nonempty [of cs] by (auto split: list.splits)
qed

lemma split_ws_sublist: "w \<in> set (split_ws str) \<Longrightarrow> sublist w str"
proof (induction str arbitrary: w rule: split_ws.induct)
  case 1
  then show ?case by simp
next
  case (2 c cs)
  show ?case
  proof (cases "is_space c")
    case True
    with "2.prems" have "w = [] \<or> w \<in> set (split_ws (dropWhile is_space cs))" by simp
    then show ?thesis
    proof
      assume "w = []" then show ?thesis by simp
    next
      assume "w \<in> set (split_ws (dropWhile is_space cs))"
      with True have "sublist w (dropWhile is_space cs)" by (rule "2.IH"(1))
      moreover have "sublist (dropWhile is_space cs) (c # cs)"
        by (meson sublist_Cons_right sublist_dropWhile)
      ultimately show ?thesis by (rule sublist_order.order_trans)
    qed
  next
    case False
    obtain w0 ws where sp: "split_ws cs = w0 # ws"
      using split_ws_nonempty [of cs] by (cases "split_ws cs") auto
    with False "2.prems" have "w = c # w0 \<or> w \<in> set ws" by simp
    then show ?thesis
    proof
      assume w: "w = c # w0"
      have "prefix w0 cs" using split_ws_hd_prefix [of cs] sp by simp
      then have "prefix w (c # cs)" using w by simp
      then show ?thesis by (rule prefix_imp_sublist)
    next
      assume "w \<in> set ws"
      then have "w \<in> set (split_ws cs)" using sp by simp
      with False have "sublist w cs" by (rule "2.IH"(2))
      then show ?thesis by (simp add: sublist_Cons_right)
    qed
  qed
qed

lemma similarity_ge_low:
  assumes "d \<le> m" and "t \<le> 0"
  shows "similarity_ge d m t = (m \<noteq> 0)"
proof (cases "m = 0")
  case True
  then show ?thesis by (simp add: similarity_ge_def)
next
  case False
  then have "(of_nat d :: rat) / of_nat m \<le> 1" using assms(1) by simp
  then have "t \<le> 1 - of_nat d / of_nat m" using assms(2) by linarith
  with False show ?thesis by (simp add: similarity_ge_def)
qed

lemma similarity_ge_high:
  assumes "1 < t"
  shows "\<not> similarity_ge d m t"
proof -
  have "0 \<le> (of_nat d :: rat) / of_nat m" by simp
  then have "\<not> t \<le> 1 - of_nat d / of_nat m" using assms by linarith
  then show ?thesis by (simp add: similarity_ge_def)
qed

lemma similarity_ge_one: "similarity_ge d m 1 \<Longrightarrow> d = 0"
  by (auto simp: similarity_ge_def divide_le_0_iff)

lemma word_matches_low:
  assumes "t \<le> 0"
  shows "word_matches q t w = word_matches q 0 w"
proof -
  have whole: "\<And>t'. t' \<le> 0 \<Longrightarrow>
      similarity_ge (levenshteinDistance q w) (max (length q) (length w)) t'
        = (max (length q) (length w) \<noteq> 0)"
    by (rule similarity_ge_low) (rule levenshteinDistance_le)
  have part: "\<And>t' i. t' \<le> 0 \<Longrightarrow> i \<in> set [0 ..< Suc (length w - length q)] \<Longrightarrow> length q \<le> length w \<Longrightarrow>
      similarity_ge (levenshteinDistance q (take (length q) (drop i w))) (length q) t'
        = (length q \<noteq> 0)"
  proof (rule similarity_ge_low)
    fix t' :: rat and i
    assume "i \<in> set [0 ..< Suc (length w - length q)]" and "length q \<le> length w"
    then have "length (take (length q) (drop i w)) = length q" by auto
    then show "levenshteinDistance q (take (length q) (drop i w)) \<le> length q"
      using levenshteinDistance_le [of q "take (length q) (drop i w)"] by simp
  qed
  have "list_ex (\<lambda>i. similarity_ge (levenshteinDistance q (take (length q) (drop i w))) (length q) t)
          [0 ..< Suc (length w - length q)]
      = list_ex (\<lambda>i. similarity_ge (levenshteinDistance q (take (length q) (drop i w))) (length q) 0)
          [0 ..< Suc (length w - length q)]" if "length q \<le> length w"
    unfolding list_ex_iff using part [OF assms _ that] part [OF order_refl _ that] by blast
  then show ?thesis
    unfolding word_matches_def using whole [OF assms] whole [OF order_refl] by auto
qed

lemma word_matches_high: "1 < t \<Longrightarrow> \<not> word_matches q t w"
  by (simp add: word_matches_def similarity_ge_high list_ex_iff)

lemma word_matches_one: "word_matches q 1 w \<Longrightarrow> sublist q w"
proof -
  assume "word_matches q 1 w"
  then consider "levenshteinDistance q w = 0"
    | i where "levenshteinDistance q (take (length q) (drop i w)) = 0"
    unfolding word_matches_def list_ex_iff by (meson similarity_ge_one)
  then show ?thesis
  proof cases
    case 1
    then have "q = w" by (rule levenshteinDistance_0)
    then show ?thesis by simp
  next
    case 2
    then have "q = take (length q) (drop i w)" by (rule levenshteinDistance_0)
    moreover have "sublist (take (length q) (drop i w)) w"
      by (meson sublist_drop sublist_order.order_trans sublist_take)
    ultimately show ?thesis by simp
  qed
qed

lemma fuzzyMatch_clamp: "fuzzyMatch q str t = fuzzyMatch q str (clamp_threshold t)"
proof -
  consider "t < 0" | "0 \<le> t \<and> t \<le> 1" | "1 < t" by linarith
  then show ?thesis
  proof cases
    case 1
    then have c: "clamp_threshold t = 0" by (simp add: clamp_threshold_def)
    have "word_matches (toLowerCase q) t = word_matches (toLowerCase q) 0"
      using 1 by (intro ext word_matches_low) simp
    then show ?thesis by (simp add: fuzzyMatch_def c)
  next
    case 2
    then have "clamp_threshold t = t" by (simp add: clamp_threshold_def)
    then show ?thesis by simp
  next
    case 3
    then have c: "clamp_threshold t = 1" by (simp add: clamp_threshold_def)
    have "\<not> list_ex (word_matches (toLowerCase q) 1) (split_ws (toLowerCase str))"
      if "\<not> js_includes (toLowerCase str) (toLowerCase q)"
    proof
      assume "list_ex (word_matches (toLowerCase q) 1) (split_ws (toLowerCase str))"
      then obtain w where "w \<in> set (split_ws (toLowerCase str))"
          and "word_matches (toLowerCase q) 1 w"
        unfolding list_ex_iff by blast
      then have "sublist w (toLowerCase str)" and "sublist (toLowerCase q) w"
        by (simp_all add: split_ws_sublist word_matches_one)
      then have "sublist (toLowerCase q) (toLowerCase str)"
        by (meson sublist_order.order_trans)
      with that show False by (simp add: js_includes_sublist)
    qed
    moreover have "\<not> list_ex (word_matches (toLowerCase q) t) (split_ws (toLowerCase str))"
      using 3 by (simp add: list_ex_iff word_matches_high)
    ultimately show ?thesis by (auto simp: fuzzyMatch_def c Let_def)
  qed
qed

lemma matches_clamp:
  "matches p (config\<lparr>fuzzyThreshold := t\<rparr>) q opt
     = matches p (config\<lparr>fuzzyThreshold := clamp_threshold t\<rparr>) q opt"
  using fuzzyMatch_clamp [of q "searchText p opt" t]
  by (simp add: matches_def Let_def split: algorithm.splits)

lemma slice_negative:
  "m < 0 \<Longrightarrow> slice 0 m xs = take (length xs - nat (- m)) xs"
  by (auto simp: slice_def Let_def max_def nat_diff_distrib' intro: arg_cong [where f = "\<lambda>n. take n xs"])

lemma slice_zero: "slice 0 0 xs = []"
  by (simp add: slice_def)

section \<open>Search events and timers\<close>

lemma map_of_fresh:
  assumes "\<forall>(k, q) \<in> set xs. k < (n::nat)" and "n \<le> m"
  shows "map_of xs m = None"
proof -
  have "m \<notin> fst ` set xs"
  proof
    assume "m \<in> fst ` set xs"
    then obtain q where "(m, q) \<in> set xs" by auto
    with assms(1) have "m < n" by blast
    with assms(2) show False by simp
  qed
  then show ?thesis by (simp add: map_of_eq_None_iff)
qed

lemma step_search_fetch:
  assumes "has_onSearch p" and "minQueryLength config \<le> int (length q)"
  shows "step p config st (PerformSearch q)
     = st\<lparr> isLoading := True, calls := calls st @ [q],
            inflight := inflight st @ [(length (calls st), q)] \<rparr>"
  using assms by simp

lemma step_settle_resolved:
  assumes "map_of (inflight st) k = Some q"
  shows "filteredOptions (step p config st (Settle k (Resolved rs))) = fst (filterOptions p config q rs)"
    and "inflight (step p config st (Settle k (Resolved rs))) = filter (\<lambda>(k', _). k' \<noteq> k) (inflight st)"
    and "calls (step p config st (Settle k (Resolved rs))) = calls st"
  using assms by simp_all








lemma filterOptions_unsliced:
  "fst (filterOptions p config q opts) = slice 0 (maxResults config) (unsliced p config q opts)"
  by (simp add: filterOptions_def unsliced_def split: prod.splits)

section \<open>Claims\<close>

text \<open>
  C1, as stated, fails: a search for "ip" is issued, then one for "iphone"; the "iphone"
  fetch resolves and its result is displayed; then the "ip" fetch resolves, and the
  displayed list becomes that of "ip", no longer the list of the newer query.
\<close>

theorem stale_ip_overwrites_iphone:
  "filteredOptions (run (default_props\<lparr>has_onSearch := True\<rparr>) DEFAULT_SEARCH_CONFIG (init_state [])
       [PerformSearch ''ip'', PerformSearch ''iphone'', Settle 1 (Resolved [iphone])])
     = fst (filterOptions (default_props\<lparr>has_onSearch := True\<rparr>) DEFAULT_SEARCH_CONFIG
         ''iphone'' [iphone])
   \<and> filteredOptions (run (default_props\<lparr>has_onSearch := True\<rparr>) DEFAULT_SEARCH_CONFIG (init_state [])
       [PerformSearch ''ip'', PerformSearch ''iphone'', Settle 1 (Resolved [iphone]),
        Settle 0 (Resolved [ipad, iphone])])
     = [iphone, ipad]
   \<and> fst (filterOptions (default_props\<lparr>has_onSearch := True\<rparr>) DEFAULT_SEARCH_CONFIG
         ''iphone'' [iphone]) = [iphone]
   \<and> [iphone, ipad] \<noteq> [iphone]"
  by code_simp

text \<open>
  C1, amended: no search carries a tag, and every fetch that resolves replaces the
  displayed list. When a fetch for an older query \<open>q1\<close> resolves after the fetch for a newer
  query \<open>q2\<close> has resolved and been displayed, the displayed list becomes the filtered result
  of \<open>q1\<close>: the late response of the superseded search overwrites the current list.
\<close>

theorem late_response_replaces_display:
  assumes "has_onSearch p"
    and "minQueryLength config \<le> int (length q1)"
    and "minQueryLength config \<le> int (length q2)"
    and "\<forall>(k, q) \<in> set (inflight st). k < length (calls st)"
  shows "filteredOptions (run p config st
           [PerformSearch q1, PerformSearch q2,
            Settle (Suc (length (calls st))) (Resolved r2)])
         = fst (filterOptions p config q2 r2)
       \<and> filteredOptions (run p config st
           [PerformSearch q1, PerformSearch q2,
            Settle (Suc (length (calls st))) (Resolved r2),
            Settle (length (calls st)) (Resolved r1)])
         = fst (filterOptions p config q1 r1)"
proof -
  let ?n = "length (calls st)"
  let ?s1 = "step p config st (PerformSearch q1)"
  let ?s2 = "step p config ?s1 (PerformSearch q2)"
  let ?s3 = "step p config ?s2 (Settle (Suc ?n) (Resolved r2))"
  let ?s4 = "step p config ?s3 (Settle ?n (Resolved r1))"
  have none1: "map_of (inflight st) (Suc ?n) = None" and none0: "map_of (inflight st) ?n = None"
    using assms(4) by (simp_all add: map_of_fresh [where n = ?n])
  have s1: "?s1 = st\<lparr> isLoading := True, calls := calls st @ [q1],
            inflight := inflight st @ [(?n, q1)] \<rparr>"
    using assms(1,2) by (rule step_search_fetch)
  have s2: "inflight ?s2 = inflight st @ [(?n, q1), (Suc ?n, q2)]"
    using assms(1,2,3) by simp
  have look2: "map_of (inflight ?s2) (Suc ?n) = Some q2"
    unfolding s2 using none1 by (simp add: map_add_def)
  have shown3: "filteredOptions ?s3 = fst (filterOptions p config q2 r2)"
    using look2 by (rule step_settle_resolved(1))
  have "inflight ?s3 = filter (\<lambda>(k', _). k' \<noteq> Suc ?n) (inflight ?s2)"
    using look2 by (rule step_settle_resolved(2))
  then have in3: "inflight ?s3 = filter (\<lambda>(k', _). k' \<noteq> Suc ?n) (inflight st) @ [(?n, q1)]"
    unfolding s2 by simp
  have "map_of (filter (\<lambda>(k', _). k' \<noteq> Suc ?n) (inflight st)) ?n = None"
    using assms(4) by (intro map_of_fresh [where n = ?n]) auto
  then have look3: "map_of (inflight ?s3) ?n = Some q1"
    unfolding in3 by (simp add: map_add_def)
  have shown4: "filteredOptions ?s4 = fst (filterOptions p config q1 r1)"
    using look3 by (rule step_settle_resolved(1))
  show ?thesis
    using shown3 shown4 by (simp add: run_def)
qed

theorem late_response_replaces_display_witness:
  "has_onSearch (default_props\<lparr>has_onSearch := True\<rparr>)
   \<and> minQueryLength DEFAULT_SEARCH_CONFIG \<le> int (length ''ip'')
   \<and> minQueryLength DEFAULT_SEARCH_CONFIG \<le> int (length ''iphone'')
   \<and> inflight (init_state []) = []
   \<and> filteredOptions (run (default_props\<lparr>has_onSearch := True\<rparr>) DEFAULT_SEARCH_CONFIG (init_state [])
       [PerformSearch ''ip'', PerformSearch ''iphone'',
        Settle (Suc (length (calls (init_state [])))) (Resolved [iphone]),
        Settle (length (calls (init_state []))) (Resolved [ipad, iphone])])
     = fst (filterOptions (default_props\<lparr>has_onSearch := True\<rparr>) DEFAULT_SEARCH_CONFIG
         ''ip'' [ipad, iphone])"
proof -
  have h1: "has_onSearch (default_props\<lparr>has_onSearch := True\<rparr>)" by simp
  have h2: "minQueryLength DEFAULT_SEARCH_CONFIG \<le> int (length ''ip'')"
    by (simp add: DEFAULT_SEARCH_CONFIG_def)
  have h3: "minQueryLength DEFAULT_SEARCH_CONFIG \<le> int (length ''iphone'')"
    by (simp add: DEFAULT_SEARCH_CONFIG_def)
  have h4: "\<forall>(k, q) \<in> set (inflight (init_state [])). k < length (calls (init_state []))"
    by (simp add: init_state_def)
  have h5: "inflight (init_state []) = []" by (simp add: init_state_def)
  show ?thesis
    using h1 h2 h3 h5
      late_response_replaces_display [OF h1 h2 h3 h4, of "[iphone]" "[ipad, iphone]"]
    by blast
qed



text \<open>
  C3, as stated, fails for \<open>maxResults\<close>: with \<open>maxResults = -1\<close> and three matches the
  search returns the first two, whereas the clamped value 1 gives the first one only.
\<close>

theorem nonpositive_maxResults_not_clamped:
  "fst (filterOptions default_props (hybrid_config\<lparr>maxResults := - 1\<rparr>) ''mac''
         [macbook_pro, macbook_air, macbook_mini]) = [macbook_pro, macbook_air]
   \<and> fst (filterOptions default_props (hybrid_config\<lparr>maxResults := clamp_maxResults (- 1)\<rparr>) ''mac''
         [macbook_pro, macbook_air, macbook_mini]) = [macbook_pro]
   \<and> [macbook_pro, macbook_air] \<noteq> [macbook_pro]"
  by code_simp

text \<open>
  C3, amended: no configuration value is clamped and the search never fails. A
  \<open>fuzzyThreshold\<close> outside \<open>[0, 1]\<close> behaves exactly as the threshold clamped to \<open>[0, 1]\<close>.
  A \<open>maxResults\<close> of 0 gives the empty list, and a negative \<open>maxResults\<close> gives the list of
  all results without its last \<open>- maxResults\<close> entries, not the result of the cap 1.
\<close>

theorem out_of_range_config:
  "filterOptions p (config\<lparr>fuzzyThreshold := t\<rparr>) q opts
     = filterOptions p (config\<lparr>fuzzyThreshold := clamp_threshold t\<rparr>) q opts
   \<and> (maxResults config \<le> 0 \<longrightarrow>
        fst (filterOptions p config q opts)
          = (if maxResults config = 0 then []
             else take (length (unsliced p config q opts) - nat (- maxResults config))
                    (unsliced p config q opts)))"
proof
  have "filter (matches p (config\<lparr>fuzzyThreshold := t\<rparr>) q) opts
      = filter (matches p (config\<lparr>fuzzyThreshold := clamp_threshold t\<rparr>) q) opts"
    using matches_clamp [where p = p and config = config and t = t and q = q] by (intro filter_cong) simp_all
  then show "filterOptions p (config\<lparr>fuzzyThreshold := t\<rparr>) q opts
     = filterOptions p (config\<lparr>fuzzyThreshold := clamp_threshold t\<rparr>) q opts"
    by (simp add: filterOptions_def ranked_matches_def)
next
  show "maxResults config \<le> 0 \<longrightarrow>
        fst (filterOptions p config q opts)
          = (if maxResults config = 0 then []
             else take (length (unsliced p config q opts) - nat (- maxResults config))
                    (unsliced p config q opts))"
    by (simp add: filterOptions_unsliced slice_zero slice_negative)
qed

theorem out_of_range_config_witness:
  "maxResults (hybrid_config\<lparr>maxResults := - 1\<rparr>) \<le> 0
   \<and> filterOptions default_props (hybrid_config\<lparr>maxResults := - 1, fuzzyThreshold := 3 / 2\<rparr>) ''mac''
        [macbook_pro, macbook_air, macbook_mini]
     = filterOptions default_props
        (hybrid_config\<lparr>maxResults := - 1, fuzzyThreshold := clamp_threshold (3 / 2)\<rparr>) ''mac''
        [macbook_pro, macbook_air, macbook_mini]
   \<and> fst (filterOptions default_props (hybrid_config\<lparr>maxResults := - 1\<rparr>) ''mac''
        [macbook_pro, macbook_air, macbook_mini])
     = take (length (unsliced default_props (hybrid_config\<lparr>maxResults := - 1\<rparr>) ''mac''
                [macbook_pro, macbook_air, macbook_mini]) - 1)
         (unsliced default_props (hybrid_config\<lparr>maxResults := - 1\<rparr>) ''mac''
            [macbook_pro, macbook_air, macbook_mini])"
proof -
  have h: "maxResults (hybrid_config\<lparr>maxResults := - 1\<rparr>) \<le> 0" by simp
  show ?thesis
    using h
      out_of_range_config [where p = default_props
        and config = "hybrid_config\<lparr>maxResults := - 1\<rparr>" and t = "3 / 2" and q = "''mac''"
        and opts = "[macbook_pro, macbook_air, macbook_mini]"]
    by simp
qed

text \<open>
  C4: for a query shorter than \<open>minQueryLength\<close>, \<open>performSearch\<close> makes no call of
  \<open>onSearch\<close>, whether or not one is supplied (the list of calls and the list of calls in
  flight stay as they are), and displays the fallback list computed from the local options.
\<close>

theorem short_query_never_fetches:
  assumes "int (length searchQuery) < minQueryLength config"
  shows "calls (step p config st (PerformSearch searchQuery)) = calls st
       \<and> inflight (step p config st (PerformSearch searchQuery)) = inflight st
       \<and> filteredOptions (step p config st (PerformSearch searchQuery))
           = slice 0 (maxResults config) (fst (fallback_merged p (options st)))"
  using assms by (simp add: filterOptions_def split: prod.splits)

theorem short_query_never_fetches_witness:
  "int (length ''m'') < minQueryLength (DEFAULT_SEARCH_CONFIG\<lparr>minQueryLength := 2\<rparr>)
   \<and> calls (step (default_props\<lparr>has_onSearch := True\<rparr>)
        (DEFAULT_SEARCH_CONFIG\<lparr>minQueryLength := 2\<rparr>)
        (init_state [macbook_air, macbook_pro]) (PerformSearch ''m'')) = []
   \<and> filteredOptions (step (default_props\<lparr>has_onSearch := True\<rparr>)
        (DEFAULT_SEARCH_CONFIG\<lparr>minQueryLength := 2\<rparr>)
        (init_state [macbook_air, macbook_pro]) (PerformSearch ''m''))
       = slice 0 (maxResults (DEFAULT_SEARCH_CONFIG\<lparr>minQueryLength := 2\<rparr>))
           (fst (fallback_merged (default_props\<lparr>has_onSearch := True\<rparr>)
              (options (init_state [macbook_air, macbook_pro]))))"
proof -
  have short: "int (length ''m'') < minQueryLength (DEFAULT_SEARCH_CONFIG\<lparr>minQueryLength := 2\<rparr>)"
    by simp
  have "calls (init_state [macbook_air, macbook_pro]) = []"
    by (simp add: init_state_def)
  then show ?thesis
    using short
      short_query_never_fetches [OF short, of "default_props\<lparr>has_onSearch := True\<rparr>"
        "init_state [macbook_air, macbook_pro]"]
    by simp
qed

text \<open>
  C5: with the hybrid algorithm, threshold 0.5 and the query "macbok", both MacBook
  candidates are returned, "MacBook Pro" (popularity 90) before "MacBook Air"
  (popularity 70), in whichever order they are given; neither label starts with the query.
\<close>

theorem hybrid_typo_scenario:
  "fst (filterOptions default_props hybrid_config ''macbok'' [macbook_pro, macbook_air])
     = [macbook_pro, macbook_air]
   \<and> fst (filterOptions default_props hybrid_config ''macbok'' [macbook_air, macbook_pro])
     = [macbook_pro, macbook_air]
   \<and> \<not> startsWith (toLowerCase (label macbook_pro)) (toLowerCase ''macbok'')
   \<and> \<not> startsWith (toLowerCase (label macbook_air)) (toLowerCase ''macbok'')"
  by code_simp

text \<open>
  C6: for a query shorter than \<open>minQueryLength\<close> (and a result cap that is not negative),
  \<open>filterOptions\<close> returns the list the specification describes: recent, trending and
  popular slices, deduplicated by id keeping the first occurrence, cut to \<open>maxResults\<close>.
\<close>

theorem fallback_matches_spec:
  assumes "int (length searchQuery) < minQueryLength config" and "0 \<le> maxResults config"
  shows "fst (filterOptions p config searchQuery availableOptions)
           = fallback_spec p config availableOptions"
  using assms
  by (simp add: filterOptions_def fallback_merged_def fallback_spec_def Let_def slice_take
      popular_sort_key dedup_dedup_seen split: prod.splits)

theorem fallback_matches_spec_witness:
  "int (length ([] :: string)) < minQueryLength DEFAULT_SEARCH_CONFIG
   \<and> 0 \<le> maxResults DEFAULT_SEARCH_CONFIG
   \<and> fst (filterOptions default_props DEFAULT_SEARCH_CONFIG [] [pop10, recent_item, pop20, pop30])
       = [recent_item, pop30, pop20, pop10]"
proof -
  have short: "int (length ([] :: string)) < minQueryLength DEFAULT_SEARCH_CONFIG"
    by (simp add: DEFAULT_SEARCH_CONFIG_def)
  have cap: "0 \<le> maxResults DEFAULT_SEARCH_CONFIG"
    by (simp add: DEFAULT_SEARCH_CONFIG_def)
  have "fallback_spec default_props DEFAULT_SEARCH_CONFIG [pop10, recent_item, pop20, pop30]
      = [recent_item, pop30, pop20, pop10]"
    by code_simp
  then show ?thesis
    using short cap
      fallback_matches_spec [OF short cap, of default_props "[pop10, recent_item, pop20, pop30]"]
    by simp
qed

text \<open>
  C7: ranking is idempotent, and it is stable: the candidates with a given prefix-match
  status and a given popularity (absent popularity counting as 0) appear in the ranked
  list in the order they have in the input.
\<close>

theorem rank_idempotent_stable:
  "rank q (rank q xs) = rank q xs
   \<and> filter (\<lambda>x. startsWith (toLowerCase (label x)) (toLowerCase q) = e \<and> popularity_or_0 x = n)
        (rank q xs)
     = filter (\<lambda>x. startsWith (toLowerCase (label x)) (toLowerCase q) = e \<and> popularity_or_0 x = n)
        xs"
proof
  have "sorted (map (rank_key q) (sort_key (rank_key q) xs))"
    by (rule sorted_sort_key)
  then show "rank q (rank q xs) = rank q xs"
    by (simp add: rank_sort_key sort_key_id_if_sorted)
next
  have eq: "(\<lambda>x. startsWith (toLowerCase (label x)) (toLowerCase q) = e \<and> popularity_or_0 x = n)
        = (\<lambda>x. rank_key q x = (\<not> e, - n))"
    by (auto simp: rank_key_def)
  show "filter (\<lambda>x. startsWith (toLowerCase (label x)) (toLowerCase q) = e \<and> popularity_or_0 x = n)
        (rank q xs)
     = filter (\<lambda>x. startsWith (toLowerCase (label x)) (toLowerCase q) = e \<and> popularity_or_0 x = n)
        xs"
    unfolding eq rank_sort_key by (rule sort_key_stable)
qed

text \<open>
  C8, at the input \<open>[MacBook Air (70), MacBook Pro (90)]\<close> with the empty query: the
  fallback branch sorts the caller's array in place, which then holds MacBook Pro first.
\<close>

theorem fallback_sorts_input_in_place:
  "snd (filterOptions default_props DEFAULT_SEARCH_CONFIG [] [macbook_air, macbook_pro])
     = [macbook_pro, macbook_air]
   \<and> [macbook_pro, macbook_air] \<noteq> [macbook_air, macbook_pro]"
  by code_simp




text \<open>
  C10: with the empty query \<open>filterOptions\<close> takes the fallback branch whatever
  \<open>minQueryLength\<close> is, and its result does not depend on the algorithm, the threshold, the
  case sensitivity or the fields searched.
\<close>

theorem empty_query_takes_fallback:
  "filterOptions p config [] availableOptions
     = (slice 0 (maxResults config) (fst (fallback_merged p availableOptions)),
        snd (fallback_merged p availableOptions))
   \<and> filterOptions (p\<lparr>filterBy := fb\<rparr>)
        (config\<lparr>algorithm := a, fuzzyThreshold := t, caseSensitive := c\<rparr>) [] availableOptions
     = filterOptions p config [] availableOptions"
  by (simp add: filterOptions_def fallback_merged_def split: prod.splits)

end
